theory Spec2Isabelle
  imports Main
begin

section \<open>The gap buffer of mdeditor (src/gapbuffer/gap_buffer.cpp)\<close>

text \<open>
  The embedding follows \<^verbatim>\<open>gap_buffer.cpp\<close> function by function. A \<^verbatim>\<open>char\<close> of the
  source is a \<^typ>\<open>char\<close> (one byte), \<^verbatim>\<open>std::string\<close>, \<^verbatim>\<open>std::string_view\<close> and
  \<^verbatim>\<open>std::vector<char>\<close> are \<^typ>\<open>string\<close>. A \<^verbatim>\<open>size_t\<close> is a \<^typ>\<open>nat\<close>: every
  size below is the size of an object held in memory, so the sums and the doubling of
  the source stay far below \<open>2 ^ 64\<close>; the subtractions of the source are the truncating
  ones of \<^typ>\<open>nat\<close> and agree with the source exactly when the structural invariant
  \<open>gb_inv\<close> holds, which is why the theorems about content assume it.
  A member function that mutates the object takes the object and returns the new one.
  A reading of \<^verbatim>\<open>steady_clock::now()\<close> is an argument \<open>now\<close> of the function that
  takes it.
\<close>

subsection \<open>Data\<close>

record Patch =
  start :: nat
  removedLength :: nat
  insertedText :: string
  timestamp :: nat

record GapBuffer =
  buffer :: string
  gapStart :: nat
  gapEnd :: nat
  pendingPatches :: "Patch list"

definition kDefaultCapacity :: nat where
  "kDefaultCapacity = 4096"

definition kMinGapSize :: nat where
  "kMinGapSize = 256"

text \<open>The constructor \<^verbatim>\<open>Patch(start, removedLen, inserted)\<close>.\<close>

definition mkPatch :: "nat \<Rightarrow> nat \<Rightarrow> string \<Rightarrow> nat \<Rightarrow> Patch" where
  "mkPatch start0 removedLen inserted now =
     \<lparr>start = start0, removedLength = removedLen, insertedText = inserted, timestamp = now\<rparr>"

subsection \<open>Memory primitives\<close>

text \<open>
  \<open>bytes_at buf pos n\<close> is the byte range \<^verbatim>\<open>(buf.data() + pos, n)\<close>;
  \<open>memcpy_into buf dst src\<close> is the vector after \<^verbatim>\<open>memcpy(buf.data() + dst, src, |src|)\<close>;
  \<open>memmove_in buf dst src n\<close> is the vector after
  \<^verbatim>\<open>memmove(buf.data() + dst, buf.data() + src, n)\<close>: the source range is read before
  anything is written. All three describe the source when the ranges lie inside the
  vector, which the invariant guarantees at every call below.
  \<open>resize_vec n buf\<close> is \<^verbatim>\<open>buf.resize(n)\<close>: new elements are zero bytes.
\<close>

definition bytes_at :: "string \<Rightarrow> nat \<Rightarrow> nat \<Rightarrow> string" where
  "bytes_at buf pos n = take n (drop pos buf)"

definition memcpy_into :: "string \<Rightarrow> nat \<Rightarrow> string \<Rightarrow> string" where
  "memcpy_into buf dst src = take dst buf @ src @ drop (dst + length src) buf"

definition memmove_in :: "string \<Rightarrow> nat \<Rightarrow> nat \<Rightarrow> nat \<Rightarrow> string" where
  "memmove_in buf dst src n = memcpy_into buf dst (bytes_at buf src n)"

definition resize_vec :: "nat \<Rightarrow> string \<Rightarrow> string" where
  "resize_vec n buf = take n buf @ replicate (n - length buf) (CHR 0x00)"

subsection \<open>Construction, copy and move\<close>

definition GapBuffer_cap :: "nat \<Rightarrow> GapBuffer" where
  "GapBuffer_cap initialCapacity =
     \<lparr>buffer = replicate initialCapacity (CHR 0x00), gapStart = 0,
      gapEnd = initialCapacity, pendingPatches = []\<rparr>"

definition GapBuffer_default :: GapBuffer where
  "GapBuffer_default = GapBuffer_cap kDefaultCapacity"

text \<open>Copy construction and copy assignment: the new value of the target.\<close>

definition copy_gb :: "GapBuffer \<Rightarrow> GapBuffer" where
  "copy_gb other =
     \<lparr>buffer = buffer other, gapStart = gapStart other, gapEnd = gapEnd other,
      pendingPatches = pendingPatches other\<rparr>"

text \<open>
  Move construction and move assignment (from another object): the pair of the target
  and of the source afterwards. The two vectors of the source are moved out, which
  leaves them empty (the standard promises it for move construction, and the library
  implementations do it for move assignment with the default allocator), and its two
  indices are set to zero. Assignment of an object to itself changes nothing in the
  source and is not a case of these two functions.
\<close>

definition move_gb :: "GapBuffer \<Rightarrow> GapBuffer \<times> GapBuffer" where
  "move_gb other =
     (\<lparr>buffer = buffer other, gapStart = gapStart other, gapEnd = gapEnd other,
       pendingPatches = pendingPatches other\<rparr>,
      other\<lparr>buffer := [], pendingPatches := [], gapStart := 0, gapEnd := 0\<rparr>)"

subsection \<open>Loading and reading\<close>

definition loadFromString :: "GapBuffer \<Rightarrow> string \<Rightarrow> GapBuffer" where
  "loadFromString g text =
     (let newCapacity = max (length text + kMinGapSize) kDefaultCapacity;
          buf1 = resize_vec newCapacity (buffer g);
          buf2 = (if text \<noteq> [] then memcpy_into buf1 0 text else buf1)
      in \<lparr>buffer = buf2, gapStart = length text, gapEnd = newCapacity,
          pendingPatches = []\<rparr>)"

definition clear :: "GapBuffer \<Rightarrow> GapBuffer" where
  "clear g = g\<lparr>gapStart := 0, gapEnd := length (buffer g), pendingPatches := []\<rparr>"

definition length_gb :: "GapBuffer \<Rightarrow> nat" where
  "length_gb g = length (buffer g) - (gapEnd g - gapStart g)"

definition empty_gb :: "GapBuffer \<Rightarrow> bool" where
  "empty_gb g = (length_gb g = 0)"

definition getText :: "GapBuffer \<Rightarrow> string" where
  "getText g =
     bytes_at (buffer g) 0 (gapStart g)
     @ bytes_at (buffer g) (gapEnd g) (length (buffer g) - gapEnd g)"

definition getText_range :: "GapBuffer \<Rightarrow> nat \<Rightarrow> nat \<Rightarrow> string" where
  "getText_range g start0 len0 =
     (let textLen = length_gb g in
      if start0 \<ge> textLen then []
      else
        let len = min len0 (textLen - start0) in
        if len = 0 then []
        else
          let beforeGapLen = gapStart g in
          if start0 < beforeGapLen then
            let endBeforeGap = min (start0 + len) beforeGapLen;
                result = bytes_at (buffer g) start0 (endBeforeGap - start0)
            in if start0 + len > beforeGapLen then
                 let afterGapStart = gapEnd g;
                     afterGapLen = (start0 + len) - beforeGapLen
                 in result @ bytes_at (buffer g) afterGapStart afterGapLen
               else result
          else
            let adjustedStart = gapEnd g + (start0 - beforeGapLen)
            in bytes_at (buffer g) adjustedStart len)"

subsection \<open>Gap relocation and growth\<close>

definition moveGapTo :: "GapBuffer \<Rightarrow> nat \<Rightarrow> GapBuffer" where
  "moveGapTo g position =
     (if position = gapStart g then g
      else
        let gapSize = gapEnd g - gapStart g in
        if position < gapStart g then
          let shiftSize = gapStart g - position
          in g\<lparr>buffer := memmove_in (buffer g) (gapEnd g - shiftSize) position shiftSize,
               gapStart := position, gapEnd := position + gapSize\<rparr>
        else
          let shiftSize = position - gapStart g
          in g\<lparr>buffer := memmove_in (buffer g) (gapStart g) (gapEnd g) shiftSize,
               gapStart := position, gapEnd := position + gapSize\<rparr>)"

definition grow :: "GapBuffer \<Rightarrow> nat \<Rightarrow> GapBuffer" where
  "grow g minCapacity =
     (let oldCapacity = length (buffer g);
          textAfterGap = oldCapacity - gapEnd g;
          buf1 = resize_vec minCapacity (buffer g);
          buf2 = (if textAfterGap > 0
                  then memmove_in buf1 (minCapacity - textAfterGap) (gapEnd g) textAfterGap
                  else buf1)
      in g\<lparr>buffer := buf2, gapEnd := minCapacity - textAfterGap\<rparr>)"

definition ensureGapCapacity :: "GapBuffer \<Rightarrow> nat \<Rightarrow> GapBuffer" where
  "ensureGapCapacity g requiredSize =
     (let gapSize = gapEnd g - gapStart g in
      if gapSize \<ge> requiredSize then g
      else
        let currentCapacity = length (buffer g);
            needed = length_gb g + requiredSize + kMinGapSize;
            newCapacity = max (currentCapacity * 2) needed
        in grow g newCapacity)"

subsection \<open>The patch recorder\<close>

text \<open>
  \<open>recordInto\<close> is the body of \<^verbatim>\<open>recordPatch\<close> on the vector of pending patches, the
  only member it touches: \<open>last ps\<close> is \<^verbatim>\<open>pendingPatches_.back()\<close>, and the two merging
  branches update that element in place.
\<close>

definition recordInto :: "Patch list \<Rightarrow> nat \<Rightarrow> nat \<Rightarrow> string \<Rightarrow> nat \<Rightarrow> Patch list" where
  "recordInto ps start0 removedLen inserted now =
     (if ps \<noteq> [] \<and> removedLen = 0 \<and> removedLength (last ps) = 0
         \<and> start0 = start (last ps) + length (insertedText (last ps))
      then butlast ps
           @ [(last ps)\<lparr>insertedText := insertedText (last ps) @ inserted, timestamp := now\<rparr>]
      else if ps \<noteq> [] \<and> inserted = [] \<and> insertedText (last ps) = []
              \<and> start0 + removedLen = start (last ps)
      then butlast ps
           @ [(last ps)\<lparr>start := start0,
                         removedLength := removedLength (last ps) + removedLen,
                         timestamp := now\<rparr>]
      else ps @ [mkPatch start0 removedLen inserted now])"

definition recordPatch :: "GapBuffer \<Rightarrow> nat \<Rightarrow> nat \<Rightarrow> string \<Rightarrow> nat \<Rightarrow> GapBuffer" where
  "recordPatch g start0 removedLen inserted now =
     g\<lparr>pendingPatches := recordInto (pendingPatches g) start0 removedLen inserted now\<rparr>"

definition flushPatches :: "GapBuffer \<Rightarrow> Patch list \<times> GapBuffer" where
  "flushPatches g = (pendingPatches g, g\<lparr>pendingPatches := []\<rparr>)"

definition hasPendingPatches :: "GapBuffer \<Rightarrow> bool" where
  "hasPendingPatches g = (pendingPatches g \<noteq> [])"

subsection \<open>Editing\<close>

definition insert_gb :: "GapBuffer \<Rightarrow> nat \<Rightarrow> string \<Rightarrow> nat \<Rightarrow> GapBuffer" where
  "insert_gb g offset0 text now =
     (if text = [] then g
      else
        let offset = min offset0 (length_gb g);
            g1 = ensureGapCapacity g (length text);
            g2 = moveGapTo g1 offset;
            g3 = g2\<lparr>buffer := memcpy_into (buffer g2) (gapStart g2) text,
                    gapStart := gapStart g2 + length text\<rparr>
        in recordPatch g3 offset 0 text now)"

text \<open>
  \<^verbatim>\<open>erase\<close> also copies the erased bytes into a local \<^verbatim>\<open>erasedText\<close> that it never
  uses; the copy reads the object only and is left out.
\<close>

definition erase :: "GapBuffer \<Rightarrow> nat \<Rightarrow> nat \<Rightarrow> nat \<Rightarrow> GapBuffer" where
  "erase g offset len0 now =
     (let textLen = length_gb g in
      if offset \<ge> textLen \<or> len0 = 0 then g
      else
        let len = min len0 (textLen - offset);
            g1 = moveGapTo g offset;
            g2 = g1\<lparr>gapEnd := gapEnd g1 + len\<rparr>
        in recordPatch g2 offset len [] now)"

subsection \<open>Line and offset mapping\<close>

definition newline :: char where
  "newline = CHR 0x0A"

text \<open>
  The counting loop \<^verbatim>\<open>for (i = i0; i < stop; ++i) if (buffer_[i] == '\n') ++line;\<close>
  that \<^verbatim>\<open>lineFromOffset\<close> and \<^verbatim>\<open>lineCount\<close> each run on both sides of the gap.
\<close>

function countNewlines :: "string \<Rightarrow> nat \<Rightarrow> nat \<Rightarrow> nat \<Rightarrow> nat" where
  "countNewlines buf i stop line =
     (if i < stop
      then countNewlines buf (Suc i) stop (if buf ! i = newline then Suc line else line)
      else line)"
  by pat_completeness auto
termination
  by (relation "measure (\<lambda>(buf, i, stop, line). stop - i)") auto

declare countNewlines.simps [simp del]

text \<open>
  The searching loop of \<^verbatim>\<open>offsetFromLine\<close>,
  \<^verbatim>\<open>for (i = i0; i < stop && currentLine < line; ++i) { ...; ++offset; }\<close>,
  returning \<^verbatim>\<open>currentLine\<close> and \<^verbatim>\<open>offset\<close>.
\<close>

function scanLines :: "string \<Rightarrow> nat \<Rightarrow> nat \<Rightarrow> nat \<Rightarrow> nat \<Rightarrow> nat \<Rightarrow> nat \<times> nat" where
  "scanLines buf i stop line currentLine offset =
     (if i < stop \<and> currentLine < line
      then scanLines buf (Suc i) stop line
             (if buf ! i = newline then Suc currentLine else currentLine) (Suc offset)
      else (currentLine, offset))"
  by pat_completeness auto
termination
  by (relation "measure (\<lambda>(buf, i, stop, line, currentLine, offset). stop - i)") auto

declare scanLines.simps [simp del]

definition lineFromOffset :: "GapBuffer \<Rightarrow> nat \<Rightarrow> nat" where
  "lineFromOffset g offset0 =
     (let textLen = length_gb g;
          offset = min offset0 textLen;
          beforeGapLen = min offset (gapStart g);
          line = countNewlines (buffer g) 0 beforeGapLen 0
      in if offset > gapStart g then
           let afterGapOffset = gapEnd g + (offset - gapStart g)
           in countNewlines (buffer g) (gapEnd g) afterGapOffset line
         else line)"

definition offsetFromLine :: "GapBuffer \<Rightarrow> nat \<Rightarrow> nat \<Rightarrow> nat" where
  "offsetFromLine g line column =
     (if line = 0 \<and> column = 0 then 0
      else
        let textLen = length_gb g;
            (currentLine, offset) = scanLines (buffer g) 0 (gapStart g) line 0 0;
            (currentLine2, offset2) =
              (if currentLine < line
               then scanLines (buffer g) (gapEnd g) (length (buffer g)) line currentLine offset
               else (currentLine, offset))
        in min (offset2 + column) textLen)"

definition lineCount :: "GapBuffer \<Rightarrow> nat" where
  "lineCount g =
     (if empty_gb g then 0
      else
        let lines = countNewlines (buffer g) 0 (gapStart g) 1
        in countNewlines (buffer g) (gapEnd g) (length (buffer g)) lines)"

subsection \<open>The two loops on the text\<close>

text \<open>
  \<open>count_nl\<close> counts the line feeds of a byte sequence. \<open>scanText\<close> is the searching
  loop of \<^verbatim>\<open>offsetFromLine\<close> run over the bytes it visits rather than over indices of
  the vector. Both serve to state what the line queries compute from the text.
\<close>

definition count_nl :: "string \<Rightarrow> nat" where
  "count_nl xs = length (filter (\<lambda>c. c = newline) xs)"

fun scanText :: "string \<Rightarrow> nat \<Rightarrow> nat \<Rightarrow> nat \<Rightarrow> nat \<times> nat" where
  "scanText [] line currentLine offset = (currentLine, offset)"
| "scanText (c # cs) line currentLine offset =
     (if currentLine < line
      then scanText cs line (if c = newline then Suc currentLine else currentLine) (Suc offset)
      else (currentLine, offset))"

subsection \<open>The structural invariant\<close>

definition gb_inv :: "GapBuffer \<Rightarrow> bool" where
  "gb_inv g = (gapStart g \<le> gapEnd g \<and> gapEnd g \<le> length (buffer g))"

subsection \<open>The layout of the vector\<close>

text \<open>
  \<open>layout g A G B\<close>: the vector is the text \<open>A\<close> before the gap, the gap \<open>G\<close> and the
  text \<open>B\<close> after the gap, and the two indices delimit \<open>G\<close>. It is the invariant with
  the three zones named, used to follow the content through the operations.
\<close>

definition layout :: "GapBuffer \<Rightarrow> string \<Rightarrow> string \<Rightarrow> string \<Rightarrow> bool" where
  "layout g A G B =
     (buffer g = A @ G @ B \<and> gapStart g = length A \<and> gapEnd g = length A + length G)"

subsection \<open>Pure patches and reachable buffers\<close>

text \<open>
  A patch is pure when it is an insertion or a deletion, not both. \<open>reachable\<close> holds of
  the buffers that the public interface can produce: the constructors, then any
  sequence of loading, clearing, editing, flushing, copying and moving (the target of a
  move, and its source afterwards).
\<close>

definition pure_patch :: "Patch \<Rightarrow> bool" where
  "pure_patch p =
     ((removedLength p = 0 \<and> insertedText p \<noteq> [])
      \<or> (insertedText p = [] \<and> removedLength p \<ge> 1))"

inductive reachable :: "GapBuffer \<Rightarrow> bool" where
  constructed: "reachable (GapBuffer_cap n)"
| loaded: "reachable g \<Longrightarrow> reachable (loadFromString g s)"
| cleared: "reachable g \<Longrightarrow> reachable (clear g)"
| inserted: "reachable g \<Longrightarrow> reachable (insert_gb g off t now)"
| erased: "reachable g \<Longrightarrow> reachable (erase g off len now)"
| flushed: "reachable g \<Longrightarrow> reachable (snd (flushPatches g))"
| copied: "reachable g \<Longrightarrow> reachable (copy_gb g)"
| move_target: "reachable g \<Longrightarrow> reachable (fst (move_gb g))"
| move_source: "reachable g \<Longrightarrow> reachable (snd (move_gb g))"

section \<open>Verification\<close>

subsection \<open>The layout through relocation, growth and the edits\<close>

lemma layout_inv: "layout g A G B \<Longrightarrow> gb_inv g"
  by (simp add: layout_def gb_inv_def)

lemma inv_layout:
  assumes "gb_inv g"
  shows "layout g (take (gapStart g) (buffer g))
                  (take (gapEnd g - gapStart g) (drop (gapStart g) (buffer g)))
                  (drop (gapEnd g) (buffer g))"
proof -
  have "take (gapEnd g - gapStart g) (drop (gapStart g) (buffer g)) @ drop (gapEnd g) (buffer g)
        = drop (gapStart g) (buffer g)"
    using assms
    by (metis add_diff_inverse_nat append_take_drop_id drop_drop gb_inv_def not_less add.commute)
  then show ?thesis
    using assms by (auto simp add: layout_def gb_inv_def min_def)
qed

lemma layout_getText: "layout g A G B \<Longrightarrow> getText g = A @ B"
  by (simp add: layout_def getText_def bytes_at_def)

lemma layout_length: "layout g A G B \<Longrightarrow> length_gb g = length A + length B"
  by (simp add: layout_def length_gb_def)

lemma moveGapTo_left:
  assumes "layout g (A1 @ A2) G B"
  shows "layout (moveGapTo g (length A1)) A1 (take (length G) (A2 @ G)) (A2 @ B)"
proof (cases "A2 = []")
  case True
  then show ?thesis using assms by (simp add: moveGapTo_def layout_def)
next
  case False
  then show ?thesis using assms
    by (simp add: moveGapTo_def layout_def Let_def memmove_in_def memcpy_into_def bytes_at_def)
qed

lemma moveGapTo_right:
  assumes "layout g A G (B1 @ B2)"
  shows "layout (moveGapTo g (length A + length B1)) (A @ B1) (drop (length B1) (G @ B1)) B2"
proof (cases "B1 = []")
  case True
  then show ?thesis using assms by (simp add: moveGapTo_def layout_def)
next
  case False
  then show ?thesis using assms
    by (simp add: moveGapTo_def layout_def Let_def memmove_in_def memcpy_into_def bytes_at_def)
qed

lemma moveGapTo_layout:
  assumes "layout g A G B" and "p \<le> length A + length B"
  shows "\<exists>G'. layout (moveGapTo g p) (take p (A @ B)) G' (drop p (A @ B))
              \<and> length G' = length G"
proof (cases "p \<le> length A")
  case True
  have lp: "length (take p A) = p" using True by simp
  have "layout g (take p A @ drop p A) G B" using assms by simp
  from moveGapTo_left[OF this]
  have "layout (moveGapTo g p) (take p A) (take (length G) (drop p A @ G)) (drop p A @ B)"
    unfolding lp .
  then show ?thesis using True
    by (intro exI[of _ "take (length G) (drop p A @ G)"]) simp
next
  case False
  define k where "k = p - length A"
  have k: "k \<le> length B" "p = length A + k" using assms False by (simp_all add: k_def)
  have lk: "length (take k B) = k" using k by simp
  have "layout g A G (take k B @ drop k B)" using assms by simp
  from moveGapTo_right[OF this]
  have "layout (moveGapTo g p) (A @ take k B) (drop k (G @ take k B)) (drop k B)"
    unfolding lk k(2) .
  then show ?thesis using k
    by (intro exI[of _ "drop k (G @ take k B)"]) simp
qed

lemma moveGapTo_patches: "pendingPatches (moveGapTo g p) = pendingPatches g"
  by (simp add: moveGapTo_def Let_def)


lemma grow_layout:
  assumes "layout g A G B" and "length A + length G + length B \<le> n"
  shows "\<exists>G'. layout (grow g n) A G' B \<and> length G' = n - length A - length B"
proof -
  define pad where "pad = replicate (n - (length A + length G + length B)) (CHR 0x00)"
  define G' where "G' = take (n - length B - length A) (G @ B @ pad)"
  have lpad: "length pad = n - (length A + length G + length B)"
    by (simp add: pad_def)
  have buf1: "resize_vec n (buffer g) = A @ G @ B @ pad"
    using assms by (simp add: resize_vec_def layout_def pad_def)
  have lG': "length G' = n - length A - length B"
    using assms(2) lpad by (simp add: G'_def)
  have e: "n - length B = length A + length G'"
    unfolding lG' using assms(2) by simp
  have buf2: "buffer (grow g n) = A @ G' @ B"
  proof (cases "B = []")
    case True
    have "buffer (grow g n) = resize_vec n (buffer g)"
      using True assms(1) by (simp add: grow_def Let_def layout_def)
    also have "\<dots> = A @ G @ B @ pad" by (rule buf1)
    also have "\<dots> = A @ G' @ B"
      using True assms(2) lpad by (simp add: G'_def)
    finally show ?thesis .
  next
    case False
    have t: "take (n - length B) (A @ G @ B @ pad) = A @ G'"
      using assms(2) by (simp add: G'_def)
    have d: "drop (n - length B + length B) (A @ G @ B @ pad) = []"
      using assms(2) lpad by simp
    have b: "bytes_at (A @ G @ B @ pad) (gapEnd g) (length B) = B"
      using assms(1) by (simp add: bytes_at_def layout_def)
    have m: "memmove_in (A @ G @ B @ pad) (n - length B) (gapEnd g) (length B) = A @ G' @ B"
      unfolding memmove_in_def memcpy_into_def b t d by simp
    have "buffer (grow g n)
          = memmove_in (resize_vec n (buffer g)) (n - length B) (gapEnd g) (length B)"
      using False assms(1) by (simp add: grow_def Let_def layout_def)
    then show ?thesis by (simp only: buf1 m)
  qed
  have "gapEnd (grow g n) = n - length B"
    using assms(1) by (simp add: grow_def Let_def layout_def)
  moreover have "gapStart (grow g n) = length A"
    using assms(1) by (simp add: grow_def Let_def layout_def)
  ultimately have lay: "layout (grow g n) A G' B"
    using buf2 e by (simp add: layout_def)
  show ?thesis using lay lG' by blast
qed

lemma grow_patches: "pendingPatches (grow g n) = pendingPatches g"
  by (simp add: grow_def Let_def)

lemma ensureGapCapacity_layout:
  assumes "layout g A G B"
  shows "\<exists>G'. layout (ensureGapCapacity g r) A G' B \<and> r \<le> length G'"
proof (cases "r \<le> length G")
  case True
  then show ?thesis using assms
    by (auto simp: ensureGapCapacity_def layout_def)
next
  case False
  let ?n = "max (length (buffer g) * 2) (length_gb g + r + kMinGapSize)"
  have e: "ensureGapCapacity g r = grow g ?n"
    using False assms by (simp add: ensureGapCapacity_def layout_def Let_def)
  have len: "length (buffer g) = length A + length G + length B"
    using assms by (simp add: layout_def)
  have le: "length A + length G + length B \<le> ?n" using len by simp
  from grow_layout[OF assms le] obtain G' where
    G': "layout (grow g ?n) A G' B" "length G' = ?n - length A - length B" by blast
  have "r \<le> ?n - length A - length B"
    using layout_length[OF assms] by simp
  then show ?thesis using G' e by auto
qed

lemma ensureGapCapacity_patches: "pendingPatches (ensureGapCapacity g r) = pendingPatches g"
  by (simp add: ensureGapCapacity_def Let_def grow_patches)

lemma recordPatch_layout: "layout (recordPatch g s r t now) A G B = layout g A G B"
  by (simp add: recordPatch_def layout_def)

lemma insert_gb_layout:
  assumes "layout g A G B" and "text \<noteq> []"
  shows "\<exists>G'. layout (insert_gb g off text now)
                 (take (min off (length A + length B)) (A @ B) @ text) G'
                 (drop (min off (length A + length B)) (A @ B))"
proof -
  let ?c = "min off (length A + length B)"
  let ?g1 = "ensureGapCapacity g (length text)"
  let ?g2 = "moveGapTo ?g1 ?c"
  let ?g3 = "?g2\<lparr>buffer := memcpy_into (buffer ?g2) (gapStart ?g2) text,
                    gapStart := gapStart ?g2 + length text\<rparr>"
  obtain G1 where G1: "layout ?g1 A G1 B" "length text \<le> length G1"
    using ensureGapCapacity_layout[OF assms(1)] by blast
  obtain G2 where G2: "layout ?g2 (take ?c (A @ B)) G2 (drop ?c (A @ B))" "length G2 = length G1"
    using moveGapTo_layout[OF G1(1), of ?c] by auto
  have "layout ?g3 (take ?c (A @ B) @ text) (drop (length text) G2) (drop ?c (A @ B))"
    using G2 G1(2) by (simp add: layout_def memcpy_into_def)
  moreover have "insert_gb g off text now = recordPatch ?g3 ?c 0 text now"
    using assms(2) layout_length[OF assms(1)] by (simp add: insert_gb_def Let_def)
  ultimately show ?thesis by (auto simp: recordPatch_layout)
qed

lemma layout_extend_gap:
  assumes "layout g A G (B1 @ B2)"
  shows "layout (g\<lparr>gapEnd := gapEnd g + length B1\<rparr>) A (G @ B1) B2"
  using assms by (simp add: layout_def)

lemma erase_layout:
  assumes "layout g A G B" and "off < length A + length B" and "len \<noteq> 0"
  shows "\<exists>G'. layout (erase g off len now)
                 (take off (A @ B)) G'
                 (drop (off + min len (length A + length B - off)) (A @ B))"
proof -
  define k where "k = min len (length A + length B - off)"
  define D where "D = drop off (A @ B)"
  define B1 where "B1 = take k D"
  define B2 where "B2 = drop k D"
  let ?g1 = "moveGapTo g off"
  let ?g2 = "?g1\<lparr>gapEnd := gapEnd ?g1 + k\<rparr>"
  obtain G1 where G1: "layout ?g1 (take off (A @ B)) G1 D"
    using moveGapTo_layout[OF assms(1), of off] assms(2) unfolding D_def by auto
  have "length D = length A + length B - off" by (simp add: D_def)
  then have l1: "length B1 = k" by (simp add: B1_def k_def)
  have "D = B1 @ B2" by (simp add: B1_def B2_def)
  with G1 have "layout ?g1 (take off (A @ B)) G1 (B1 @ B2)" by simp
  from layout_extend_gap[OF this]
  have "layout ?g2 (take off (A @ B)) (G1 @ B1) B2"
    unfolding l1 .
  moreover have "B2 = drop (off + k) (A @ B)"
    unfolding B2_def D_def drop_drop by (simp only: add.commute)
  moreover have "erase g off len now = recordPatch ?g2 off k [] now"
    using assms(2,3) layout_length[OF assms(1)] by (simp add: erase_def Let_def k_def)
  ultimately have "layout (erase g off len now) (take off (A @ B)) (G1 @ B1)
                     (drop (off + k) (A @ B))"
    by (simp only: recordPatch_layout)
  then show ?thesis unfolding k_def by blast
qed

subsection \<open>Content, length and pending patches after each operation\<close>

lemma inv_layoutE:
  assumes "gb_inv g"
  obtains A G B where "layout g A G B"
  using inv_layout[OF assms] by blast

lemma length_gb_getText: "gb_inv g \<Longrightarrow> length_gb g = length (getText g)"
  by (erule inv_layoutE) (simp add: layout_getText layout_length)

lemma insert_gb_empty: "insert_gb g off [] now = g"
  by (simp add: insert_gb_def)

lemma insert_gb_inv:
  assumes "gb_inv g"
  shows "gb_inv (insert_gb g off text now)"
proof (cases "text = []")
  case True
  then show ?thesis using assms by (simp add: insert_gb_empty)
next
  case False
  from assms obtain A G B where "layout g A G B" by (rule inv_layoutE)
  from insert_gb_layout[OF this False] show ?thesis by (blast intro: layout_inv)
qed

lemma insert_gb_getText:
  assumes "gb_inv g"
  shows "getText (insert_gb g off text now)
         = take (min off (length_gb g)) (getText g) @ text
           @ drop (min off (length_gb g)) (getText g)"
proof (cases "text = []")
  case True
  then show ?thesis by (simp add: insert_gb_empty)
next
  case False
  from assms obtain A G B where l: "layout g A G B" by (rule inv_layoutE)
  from insert_gb_layout[OF l False] obtain G' where
    "layout (insert_gb g off text now)
       (take (min off (length A + length B)) (A @ B) @ text) G'
       (drop (min off (length A + length B)) (A @ B))" by blast
  from layout_getText[OF this] show ?thesis
    by (simp only: layout_getText[OF l] layout_length[OF l] append_assoc)
qed

lemma insert_gb_length:
  assumes "gb_inv g"
  shows "length_gb (insert_gb g off text now) = length_gb g + length text"
proof -
  have "length_gb (insert_gb g off text now) = length (getText (insert_gb g off text now))"
    by (rule length_gb_getText[OF insert_gb_inv[OF assms]])
  also have "\<dots> = length (getText g) + length text"
    unfolding insert_gb_getText[OF assms] length_append
    by (metis add.assoc add.commute append_take_drop_id length_append)
  finally show ?thesis by (simp add: length_gb_getText[OF assms])
qed

lemma erase_noop: "off \<ge> length_gb g \<or> len = 0 \<Longrightarrow> erase g off len now = g"
  by (auto simp: erase_def)

lemma erase_inv:
  assumes "gb_inv g"
  shows "gb_inv (erase g off len now)"
proof (cases "off \<ge> length_gb g \<or> len = 0")
  case True
  then show ?thesis using assms by (simp add: erase_noop)
next
  case False
  from assms obtain A G B where l: "layout g A G B" by (rule inv_layoutE)
  from False have "off < length A + length B" "len \<noteq> 0"
    using layout_length[OF l] by simp_all
  from erase_layout[OF l this] show ?thesis by (blast intro: layout_inv)
qed

lemma erase_getText:
  assumes "gb_inv g" and "off < length_gb g" and "len \<noteq> 0"
  shows "getText (erase g off len now)
         = take off (getText g) @ drop (off + min len (length_gb g - off)) (getText g)"
proof -
  from assms obtain A G B where l: "layout g A G B" by (auto elim: inv_layoutE)
  from assms have "off < length A + length B" using layout_length[OF l] by simp
  from erase_layout[OF l this assms(3)] obtain G' where
    "layout (erase g off len now) (take off (A @ B)) G'
       (drop (off + min len (length A + length B - off)) (A @ B))" by blast
  from layout_getText[OF this] show ?thesis
    by (simp only: layout_getText[OF l] layout_length[OF l])
qed

lemma erase_length:
  assumes "gb_inv g" and "off < length_gb g" and "len \<noteq> 0"
  shows "length_gb (erase g off len now) = length_gb g - min len (length_gb g - off)"
proof -
  have "length_gb (erase g off len now) = length (getText (erase g off len now))"
    by (rule length_gb_getText[OF erase_inv[OF assms(1)]])
  also have "\<dots> = length_gb g - min len (length_gb g - off)"
    unfolding erase_getText[OF assms] using assms(2)
    by (simp add: length_gb_getText[OF assms(1)])
  finally show ?thesis .
qed

lemma loadFromString_layout:
  "\<exists>G. layout (loadFromString g s) s G []"
proof -
  define n where "n = max (length s + kMinGapSize) kDefaultCapacity"
  define buf1 where "buf1 = resize_vec n (buffer g)"
  have l1: "length buf1 = n" by (simp add: buf1_def resize_vec_def)
  have n: "length s \<le> n" by (simp add: n_def)
  have "buffer (loadFromString g s) = s @ drop (length s) buf1"
  proof (cases "s = []")
    case True
    then show ?thesis by (simp add: loadFromString_def Let_def buf1_def n_def)
  next
    case False
    then show ?thesis
      by (simp add: loadFromString_def Let_def buf1_def n_def memcpy_into_def)
  qed
  moreover have "gapStart (loadFromString g s) = length s"
    and "gapEnd (loadFromString g s) = n"
    by (simp_all add: loadFromString_def Let_def n_def)
  ultimately have "layout (loadFromString g s) s (drop (length s) buf1) []"
    using l1 n by (simp add: layout_def)
  then show ?thesis ..
qed

lemma loadFromString_inv: "gb_inv (loadFromString g s)"
  using loadFromString_layout[of g s] by (blast intro: layout_inv)

lemma loadFromString_getText: "getText (loadFromString g s) = s"
  using loadFromString_layout[of g s] by (auto dest: layout_getText)

lemma loadFromString_length: "length_gb (loadFromString g s) = length s"
  using loadFromString_layout[of g s] by (auto dest: layout_length)

lemma loadFromString_patches: "pendingPatches (loadFromString g s) = []"
  by (simp add: loadFromString_def Let_def)

lemma getText_range_layout:
  assumes "layout g A G B"
  shows "getText_range g s l = take l (drop s (A @ B))"
proof (cases "s \<ge> length A + length B")
  case True
  then show ?thesis using layout_length[OF assms] by (simp add: getText_range_def)
next
  case False
  note inrange = this
  show ?thesis
  proof (cases "l = 0")
    case True
    then show ?thesis using layout_length[OF assms] by (simp add: getText_range_def Let_def)
  next
    case False
    then show ?thesis using inrange layout_length[OF assms] assms
      by (auto simp add: getText_range_def Let_def layout_def bytes_at_def min_def add.commute)
  qed
qed

lemma getText_range_eq:
  "gb_inv g \<Longrightarrow> getText_range g s l = take l (drop s (getText g))"
  by (erule inv_layoutE) (simp add: getText_range_layout layout_getText)

lemma recordPatch_patches:
  "pendingPatches (recordPatch g s r t now) = recordInto (pendingPatches g) s r t now"
  by (simp add: recordPatch_def)

lemma insert_gb_patches:
  "text \<noteq> [] \<Longrightarrow> pendingPatches (insert_gb g off text now)
     = recordInto (pendingPatches g) (min off (length_gb g)) 0 text now"
  by (simp add: insert_gb_def Let_def recordPatch_patches moveGapTo_patches
        ensureGapCapacity_patches)

lemma erase_patches:
  "off < length_gb g \<Longrightarrow> len \<noteq> 0 \<Longrightarrow> pendingPatches (erase g off len now)
     = recordInto (pendingPatches g) off (min len (length_gb g - off)) [] now"
  by (simp add: erase_def Let_def recordPatch_patches moveGapTo_patches)

subsection \<open>Editing and reading: the claims on content\<close>

lemma insert_gb_gapStart:
  assumes "gb_inv g" and "text \<noteq> []"
  shows "gapStart (insert_gb g off text now) = min off (length_gb g) + length text"
proof -
  from assms obtain A G B where l: "layout g A G B" by (auto elim: inv_layoutE)
  from insert_gb_layout[OF l assms(2)] obtain G' where
    "layout (insert_gb g off text now)
       (take (min off (length A + length B)) (A @ B) @ text) G'
       (drop (min off (length A + length B)) (A @ B))" by blast
  then have "gapStart (insert_gb g off text now)
             = length (take (min off (length A + length B)) (A @ B)) + length text"
    by (simp only: layout_def length_append)
  moreover have "min off (length A + length B) \<le> length (A @ B)" by simp
  then have "length (take (min off (length A + length B)) (A @ B))
             = min off (length A + length B)"
    by (simp only: length_take min.absorb2)
  ultimately show ?thesis by (simp only: layout_length[OF l])
qed

text \<open>
  Claim C3. For every byte sequence \<open>s\<close> and every prior state \<open>g\<close> of the buffer
  (whatever its pending patches), after \<^verbatim>\<open>loadFromString(s)\<close> the full text is \<open>s\<close>
  and no patch is pending.
\<close>
theorem loadFromString_replaces_content:
  "getText (loadFromString g s) = s \<and> \<not> hasPendingPatches (loadFromString g s)"
  by (simp add: loadFromString_getText hasPendingPatches_def loadFromString_patches)

text \<open>
  Claim C1. \<^verbatim>\<open>insert(offset, text)\<close> with an empty text leaves the whole object as it
  was. With a nonempty text, on a buffer that satisfies the invariant, and with \<open>c\<close> the
  offset clamped to the length, the text afterwards is the old prefix of length \<open>c\<close>,
  the inserted text, then the old suffix, and the length grows by the length of the
  inserted text. Loading \<^verbatim>\<open>"Hello, World!"\<close> (13 bytes) and inserting
  \<^verbatim>\<open>"Beautiful "\<close> at 7 gives \<^verbatim>\<open>"Hello, Beautiful World!"\<close> (23 bytes).
\<close>
theorem insert_splices_text:
  "insert_gb g off [] now = g
   \<and> (gb_inv g \<and> t \<noteq> [] \<longrightarrow>
        getText (insert_gb g off t now)
          = take (min off (length_gb g)) (getText g) @ t
            @ drop (min off (length_gb g)) (getText g)
        \<and> length_gb (insert_gb g off t now) = length_gb g + length t)
   \<and> length ''Hello, World!'' = 13
   \<and> getText (insert_gb (loadFromString g0 ''Hello, World!'') 7 ''Beautiful '' now0)
       = ''Hello, Beautiful World!''
   \<and> length_gb (insert_gb (loadFromString g0 ''Hello, World!'') 7 ''Beautiful '' now0) = 23"
proof -
  let ?h = "loadFromString g0 ''Hello, World!''"
  have i: "gb_inv ?h" by (rule loadFromString_inv)
  have "getText (insert_gb ?h 7 ''Beautiful '' now0) = ''Hello, Beautiful World!''"
    unfolding insert_gb_getText[OF i] loadFromString_getText loadFromString_length by simp
  moreover have "length_gb (insert_gb ?h 7 ''Beautiful '' now0) = 23"
    unfolding insert_gb_length[OF i] loadFromString_length by simp
  ultimately show ?thesis
    by (simp add: insert_gb_empty insert_gb_getText insert_gb_length)
qed

theorem insert_splices_text_witness:
  "gb_inv (insert_gb (GapBuffer_cap 4) 0 ''xyz'' 10)
   \<and> getText (insert_gb (insert_gb (GapBuffer_cap 4) 0 ''xyz'' 10) 9 ''ab'' 20) = ''xyzab''
   \<and> getText (insert_gb (insert_gb (GapBuffer_cap 4) 0 ''xyz'' 10) 1 ''ab'' 20) = ''xabyz''
   \<and> length_gb (insert_gb (insert_gb (GapBuffer_cap 4) 0 ''xyz'' 10) 1 ''ab'' 20) = 5"
proof -
  let ?g = "insert_gb (GapBuffer_cap 4) 0 ''xyz'' 10"
  have h: "gb_inv ?g" by code_simp
  have t: "getText ?g = ''xyz''" by code_simp
  have l: "length_gb ?g = 3" by code_simp
  show ?thesis
    using h insert_splices_text[where g = ?g and off = 9 and now = 20 and t = "''ab''"]
      insert_splices_text[where g = ?g and off = 1 and now = 20 and t = "''ab''"]
    by (simp add: t l)
qed

text \<open>
  Claim C2. \<^verbatim>\<open>erase(offset, len)\<close> with \<open>offset \<ge> length()\<close> or \<open>len = 0\<close> leaves the whole
  object as it was. Otherwise, on a buffer that satisfies the invariant and with
  \<open>k = min len (length() - offset)\<close>, the text afterwards is the old text without the
  bytes \<open>[offset, offset + k)\<close>, and the length shrinks by \<open>k\<close>. Erasing one byte at 5
  of \<^verbatim>\<open>"Hello, World!"\<close> gives \<^verbatim>\<open>"Hello World!"\<close>.
\<close>
theorem erase_removes_span:
  "(off \<ge> length_gb g \<or> len = 0 \<longrightarrow> erase g off len now = g)
   \<and> (gb_inv g \<and> off < length_gb g \<and> len \<noteq> 0 \<longrightarrow>
        getText (erase g off len now)
          = take off (getText g) @ drop (off + min len (length_gb g - off)) (getText g)
        \<and> length_gb (erase g off len now) = length_gb g - min len (length_gb g - off))
   \<and> getText (erase (loadFromString g0 ''Hello, World!'') 5 1 now0) = ''Hello World!''"
proof -
  let ?h = "loadFromString g0 ''Hello, World!''"
  have i: "gb_inv ?h" by (rule loadFromString_inv)
  have "getText (erase ?h 5 1 now0) = ''Hello World!''"
    by (subst erase_getText[OF i]) (simp_all add: loadFromString_getText loadFromString_length)
  then show ?thesis
    by (simp add: erase_noop erase_getText erase_length)
qed

theorem erase_removes_span_witness:
  "gb_inv (insert_gb (GapBuffer_cap 4) 0 ''abcdef'' 10)
   \<and> getText (erase (insert_gb (GapBuffer_cap 4) 0 ''abcdef'' 10) 2 3 20) = ''abf''
   \<and> getText (erase (insert_gb (GapBuffer_cap 4) 0 ''abcdef'' 10) 4 9 20) = ''abcd''
   \<and> length_gb (erase (insert_gb (GapBuffer_cap 4) 0 ''abcdef'' 10) 4 9 20) = 4
   \<and> erase (insert_gb (GapBuffer_cap 4) 0 ''abcdef'' 10) 6 1 20
       = insert_gb (GapBuffer_cap 4) 0 ''abcdef'' 10"
proof -
  let ?g = "insert_gb (GapBuffer_cap 4) 0 ''abcdef'' 10"
  have h: "gb_inv ?g" by code_simp
  have t: "getText ?g = ''abcdef''" by code_simp
  have l: "length_gb ?g = 6" by code_simp
  show ?thesis
    using h erase_removes_span[where g = ?g and off = 2 and len = 3 and now = 20]
      erase_removes_span[where g = ?g and off = 4 and len = 9 and now = 20]
      erase_removes_span[where g = ?g and off = 6 and len = 1 and now = 20]
    by (simp add: t l)
qed

text \<open>
  Claim C4. On a buffer that satisfies the invariant, \<^verbatim>\<open>getText(start, len)\<close> is empty
  when \<open>start \<ge> length()\<close> and otherwise the bytes
  \<open>[start, start + min len (length() - start))\<close> of the full text, wherever the gap is.
  After loading \<^verbatim>\<open>"ABCDEFGHIJ"\<close> and inserting \<^verbatim>\<open>"XYZ"\<close> at 5 the gap starts at 8,
  inside the range read by \<^verbatim>\<open>getText(3, 6)\<close>, which is \<^verbatim>\<open>"DEXYZF"\<close>.
\<close>
theorem getText_range_clamped_substring:
  "(gb_inv g \<longrightarrow>
      getText_range g s l
        = (if s \<ge> length_gb g then []
           else take (min l (length_gb g - s)) (drop s (getText g))))
   \<and> gapStart (insert_gb (loadFromString g0 ''ABCDEFGHIJ'') 5 ''XYZ'' now0) = 8
   \<and> getText_range (insert_gb (loadFromString g0 ''ABCDEFGHIJ'') 5 ''XYZ'' now0) 3 6
       = ''DEXYZF''"
proof -
  let ?h = "loadFromString g0 ''ABCDEFGHIJ''"
  have i: "gb_inv ?h" by (rule loadFromString_inv)
  have "getText_range (insert_gb ?h 5 ''XYZ'' now0) 3 6 = ''DEXYZF''"
    unfolding getText_range_eq[OF insert_gb_inv[OF i]] insert_gb_getText[OF i]
      loadFromString_getText loadFromString_length by simp
  moreover have "gapStart (insert_gb ?h 5 ''XYZ'' now0) = 8"
    by (subst insert_gb_gapStart[OF i]) (simp_all add: loadFromString_length)
  moreover have "gb_inv g \<longrightarrow>
      getText_range g s l
        = (if s \<ge> length_gb g then []
           else take (min l (length_gb g - s)) (drop s (getText g)))"
    by (simp add: getText_range_eq length_gb_getText min_def)
  ultimately show ?thesis by blast
qed

theorem getText_range_clamped_substring_witness:
  "gb_inv (insert_gb (insert_gb (GapBuffer_cap 4) 0 ''abcdef'' 10) 2 ''XY'' 20)
   \<and> gapStart (insert_gb (insert_gb (GapBuffer_cap 4) 0 ''abcdef'' 10) 2 ''XY'' 20) = 4
   \<and> getText_range (insert_gb (insert_gb (GapBuffer_cap 4) 0 ''abcdef'' 10) 2 ''XY'' 20) 1 5
       = ''bXYcd''
   \<and> getText_range (insert_gb (insert_gb (GapBuffer_cap 4) 0 ''abcdef'' 10) 2 ''XY'' 20) 6 9
       = ''ef''
   \<and> getText_range (insert_gb (insert_gb (GapBuffer_cap 4) 0 ''abcdef'' 10) 2 ''XY'' 20) 8 1
       = []"
proof -
  let ?g = "insert_gb (insert_gb (GapBuffer_cap 4) 0 ''abcdef'' 10) 2 ''XY'' 20"
  have h: "gb_inv ?g" by code_simp
  have s: "gapStart ?g = 4" by code_simp
  have t: "getText ?g = ''abXYcdef''" by code_simp
  have l: "length_gb ?g = 8" by code_simp
  show ?thesis
    using h s getText_range_clamped_substring[where g = ?g and s = 1 and l = 5]
      getText_range_clamped_substring[where g = ?g and s = 6 and l = 9]
      getText_range_clamped_substring[where g = ?g and s = 8 and l = 1]
    by (simp add: t l)
qed

text \<open>
  Claim C5. On a buffer that satisfies the invariant, for every offset up to the length
  and every text \<open>t\<close>, \<^verbatim>\<open>insert(offset, t)\<close> followed by \<^verbatim>\<open>erase(offset, len(t))\<close>
  gives back the full text from before the insertion.
\<close>
theorem insert_then_erase_restores:
  assumes "gb_inv g" and "off \<le> length_gb g"
  shows "getText (erase (insert_gb g off t n1) off (length t) n2) = getText g"
proof (cases "t = []")
  case True
  then show ?thesis by (simp add: insert_gb_empty erase_noop)
next
  case False
  let ?g' = "insert_gb g off t n1"
  let ?T = "getText g"
  have i': "gb_inv ?g'" by (rule insert_gb_inv[OF assms(1)])
  have l': "length_gb ?g' = length_gb g + length t" by (rule insert_gb_length[OF assms(1)])
  have T': "getText ?g' = take off ?T @ t @ drop off ?T"
    using insert_gb_getText[OF assms(1), of off t n1] assms(2) by (simp add: min_absorb1)
  have lt: "length (take off ?T) = off"
    using assms by (simp add: length_gb_getText)
  have ne: "length t \<noteq> 0" using False by simp
  have "0 < length t" using False by simp
  then have off: "off < length_gb ?g'" using assms(2) l' by linarith
  have k: "min (length t) (length_gb ?g' - off) = length t" using assms(2) l' by simp
  have "getText (erase ?g' off (length t) n2)
        = take off (getText ?g') @ drop (off + length t) (getText ?g')"
    using erase_getText[OF i' off ne, of n2] unfolding k .
  also have "\<dots> = take off ?T @ drop off ?T"
    unfolding T' using lt by simp
  finally show ?thesis by simp
qed

theorem insert_then_erase_restores_witness:
  "gb_inv (insert_gb (GapBuffer_cap 4) 0 ''abcdef'' 10)
   \<and> 2 \<le> length_gb (insert_gb (GapBuffer_cap 4) 0 ''abcdef'' 10)
   \<and> getText (erase (insert_gb (insert_gb (GapBuffer_cap 4) 0 ''abcdef'' 10) 2 ''XY'' 20)
                 2 (length ''XY'') 30) = ''abcdef''"
proof -
  let ?g = "insert_gb (GapBuffer_cap 4) 0 ''abcdef'' 10"
  have h: "gb_inv ?g" by code_simp
  have t: "getText ?g = ''abcdef''" by code_simp
  have l: "2 \<le> length_gb ?g" by code_simp
  show ?thesis
    using h l insert_then_erase_restores[OF h l, where t = "''XY''" and ?n1.0 = 20 and ?n2.0 = 30]
    by (simp add: t)
qed

subsection \<open>Patches: purity and merging\<close>

lemma recordInto_fresh: "recordInto [] s r t now = [mkPatch s r t now]"
  by (simp add: recordInto_def)

lemma recordInto_pure:
  assumes "\<forall>p\<in>set ps. pure_patch p" and "pure_patch (mkPatch s r t now)"
  shows "\<forall>p\<in>set (recordInto ps s r t now). pure_patch p"
proof (cases "ps = []")
  case True
  then show ?thesis using assms(2) by (simp add: recordInto_fresh)
next
  case False
  then have lp: "pure_patch (last ps)" using assms(1) by simp
  have bl: "\<forall>p\<in>set (butlast ps). pure_patch p"
    using assms(1) by (auto dest: in_set_butlastD)
  show ?thesis
    using assms lp bl False
    by (auto simp: recordInto_def pure_patch_def mkPatch_def)
qed

lemma insert_gb_pure:
  assumes "\<forall>p\<in>set (pendingPatches g). pure_patch p"
  shows "\<forall>p\<in>set (pendingPatches (insert_gb g off t now)). pure_patch p"
proof (cases "t = []")
  case True
  then show ?thesis using assms by (simp add: insert_gb_empty)
next
  case False
  then have "pure_patch (mkPatch (min off (length_gb g)) 0 t now)"
    by (simp add: pure_patch_def mkPatch_def)
  from recordInto_pure[OF assms this] show ?thesis
    by (simp only: insert_gb_patches[OF False])
qed

lemma erase_pure:
  assumes "\<forall>p\<in>set (pendingPatches g). pure_patch p"
  shows "\<forall>p\<in>set (pendingPatches (erase g off len now)). pure_patch p"
proof (cases "off \<ge> length_gb g \<or> len = 0")
  case True
  then show ?thesis using assms by (simp add: erase_noop)
next
  case False
  then have a: "off < length_gb g" "len \<noteq> 0" by simp_all
  then have "pure_patch (mkPatch off (min len (length_gb g - off)) [] now)"
    by (simp add: pure_patch_def mkPatch_def)
  from recordInto_pure[OF assms this] show ?thesis
    by (simp only: erase_patches[OF a])
qed

lemma reachable_pure: "reachable g \<Longrightarrow> \<forall>p\<in>set (pendingPatches g). pure_patch p"
proof (induction rule: reachable.induct)
  case (inserted g off t now)
  from inserted.IH show ?case by (rule insert_gb_pure)
next
  case (erased g off len now)
  from erased.IH show ?case by (rule erase_pure)
qed (simp_all add: GapBuffer_cap_def loadFromString_patches clear_def flushPatches_def
       copy_gb_def move_gb_def)

text \<open>
  Claim C10. Every patch held in the pending list of a buffer reached from a constructor
  by the public operations is pure: it is an insertion (no removed byte, a nonempty
  inserted text) or a deletion (no inserted text, at least one removed byte); none has
  both removed bytes and inserted text. The patches returned by \<^verbatim>\<open>flushPatches\<close> are
  the pending ones, so they are pure too. Recording a pure patch into a list of pure
  patches, merged or appended, gives a list of pure patches.
\<close>
theorem pending_patches_pure:
  "(reachable g \<longrightarrow>
      (\<forall>p\<in>set (pendingPatches g).
          pure_patch p \<and> \<not> (removedLength p \<noteq> 0 \<and> insertedText p \<noteq> []))
      \<and> (\<forall>p\<in>set (fst (flushPatches g)). pure_patch p))
   \<and> ((\<forall>p\<in>set ps. pure_patch p) \<and> pure_patch (mkPatch s r t now)
        \<longrightarrow> (\<forall>p\<in>set (recordInto ps s r t now). pure_patch p))"
  using reachable_pure[of g] recordInto_pure[of ps s r t now]
  by (auto simp: flushPatches_def pure_patch_def)

theorem pending_patches_pure_witness:
  "reachable (erase (insert_gb (insert_gb (GapBuffer_cap 4) 0 ''ab'' 10) 2 ''c'' 20) 0 2 30)
   \<and> pendingPatches (erase (insert_gb (insert_gb (GapBuffer_cap 4) 0 ''ab'' 10) 2 ''c'' 20) 0 2 30)
       = [\<lparr>start = 0, removedLength = 0, insertedText = ''abc'', timestamp = 20\<rparr>,
          \<lparr>start = 0, removedLength = 2, insertedText = [], timestamp = 30\<rparr>]
   \<and> pure_patch \<lparr>start = 0, removedLength = 0, insertedText = ''abc'', timestamp = 20\<rparr>
   \<and> pure_patch \<lparr>start = 0, removedLength = 2, insertedText = [], timestamp = 30\<rparr>
   \<and> pure_patch (mkPatch 2 3 [] 50)
   \<and> recordInto [\<lparr>start = 5, removedLength = 2, insertedText = [], timestamp = 40\<rparr>] 2 3 [] 50
       = [\<lparr>start = 2, removedLength = 5, insertedText = [], timestamp = 50\<rparr>]
   \<and> pure_patch \<lparr>start = 2, removedLength = 5, insertedText = [], timestamp = 50\<rparr>"
proof -
  let ?g = "erase (insert_gb (insert_gb (GapBuffer_cap 4) 0 ''ab'' 10) 2 ''c'' 20) 0 2 30"
  let ?ps = "[\<lparr>start = 5, removedLength = 2, insertedText = [], timestamp = 40\<rparr>]"
  have r: "reachable ?g"
    by (intro reachable.erased reachable.inserted reachable.constructed)
  have p: "pendingPatches ?g
           = [\<lparr>start = 0, removedLength = 0, insertedText = ''abc'', timestamp = 20\<rparr>,
              \<lparr>start = 0, removedLength = 2, insertedText = [], timestamp = 30\<rparr>]"
    by code_simp
  have q: "\<forall>p\<in>set ?ps. pure_patch p" by (simp add: pure_patch_def)
  have n: "pure_patch (mkPatch 2 3 [] 50)" by (simp add: pure_patch_def mkPatch_def)
  have c: "recordInto ?ps 2 3 [] 50
           = [\<lparr>start = 2, removedLength = 5, insertedText = [], timestamp = 50\<rparr>]"
    by (simp add: recordInto_def)
  note th = pending_patches_pure[where g = ?g and ps = ?ps and s = 2 and r = 3 and t = "[]"
        and now = 50]
  from th r have A: "\<forall>p\<in>set (pendingPatches ?g). pure_patch p" by blast
  from th q n have B: "\<forall>p\<in>set (recordInto ?ps 2 3 [] 50). pure_patch p" by blast
  from A have A': "pure_patch \<lparr>start = 0, removedLength = 0, insertedText = ''abc'', timestamp = 20\<rparr>"
    "pure_patch \<lparr>start = 0, removedLength = 2, insertedText = [], timestamp = 30\<rparr>"
    unfolding p by simp_all
  from B have B': "pure_patch \<lparr>start = 2, removedLength = 5, insertedText = [], timestamp = 50\<rparr>"
    unfolding c by simp
  show ?thesis
    by (intro conjI r p A' n c B')
qed

text \<open>
  Claim C6. From empty content with no pending patch, \<^verbatim>\<open>insert(0,"A")\<close>,
  \<^verbatim>\<open>insert(1,"B")\<close>, \<^verbatim>\<open>insert(2,"C")\<close> leave exactly one pending patch, and
  \<^verbatim>\<open>flushPatches()\<close> returns exactly that patch: start 0, removedLength 0, insertedText
  \<^verbatim>\<open>"ABC"\<close> (its timestamp is the clock reading of the third insertion), leaving
  nothing pending.
\<close>
theorem forward_inserts_coalesce:
  assumes "gb_inv g" and "length_gb g = 0" and "pendingPatches g = []"
  shows "pendingPatches (insert_gb (insert_gb (insert_gb g 0 ''A'' n1) 1 ''B'' n2) 2 ''C'' n3)
           = [\<lparr>start = 0, removedLength = 0, insertedText = ''ABC'', timestamp = n3\<rparr>]
         \<and> fst (flushPatches
                  (insert_gb (insert_gb (insert_gb g 0 ''A'' n1) 1 ''B'' n2) 2 ''C'' n3))
           = [\<lparr>start = 0, removedLength = 0, insertedText = ''ABC'', timestamp = n3\<rparr>]
         \<and> \<not> hasPendingPatches (snd (flushPatches
                  (insert_gb (insert_gb (insert_gb g 0 ''A'' n1) 1 ''B'' n2) 2 ''C'' n3)))"
proof -
  let ?g1 = "insert_gb g 0 ''A'' n1"
  let ?g2 = "insert_gb ?g1 1 ''B'' n2"
  let ?g3 = "insert_gb ?g2 2 ''C'' n3"
  have i1: "gb_inv ?g1" by (rule insert_gb_inv[OF assms(1)])
  have i2: "gb_inv ?g2" by (rule insert_gb_inv[OF i1])
  have l1: "length_gb ?g1 = 1" using insert_gb_length[OF assms(1), of 0 "''A''" n1] assms(2) by simp
  have l2: "length_gb ?g2 = 2" using insert_gb_length[OF i1, of 1 "''B''" n2] l1 by (simp del: One_nat_def)
  have p1: "pendingPatches ?g1 = [mkPatch 0 0 ''A'' n1]"
    by (simp add: insert_gb_patches assms(3) recordInto_fresh)
  have p2: "pendingPatches ?g2 = [\<lparr>start = 0, removedLength = 0, insertedText = ''AB'', timestamp = n2\<rparr>]"
    by (simp add: insert_gb_patches p1 l1 recordInto_def mkPatch_def del: One_nat_def)
  have p3: "pendingPatches ?g3 = [\<lparr>start = 0, removedLength = 0, insertedText = ''ABC'', timestamp = n3\<rparr>]"
    by (simp add: insert_gb_patches p2 l2 recordInto_def del: One_nat_def)
  show ?thesis unfolding flushPatches_def hasPendingPatches_def fst_conv snd_conv p3 by simp
qed

theorem forward_inserts_coalesce_witness:
  "gb_inv (loadFromString GapBuffer_default [])
   \<and> length_gb (loadFromString GapBuffer_default []) = 0
   \<and> pendingPatches (loadFromString GapBuffer_default []) = []
   \<and> fst (flushPatches (insert_gb (insert_gb (insert_gb
            (loadFromString GapBuffer_default []) 0 ''A'' 10) 1 ''B'' 20) 2 ''C'' 30))
       = [\<lparr>start = 0, removedLength = 0, insertedText = ''ABC'', timestamp = 30\<rparr>]"
proof -
  let ?g = "loadFromString GapBuffer_default []"
  have h: "gb_inv ?g" by (rule loadFromString_inv)
  have l: "length_gb ?g = 0" by (simp add: loadFromString_length)
  have p: "pendingPatches ?g = []" by (rule loadFromString_patches)
  show ?thesis
    using h l p forward_inserts_coalesce[OF h l p, where ?n1.0 = 10 and ?n2.0 = 20 and ?n3.0 = 30]
    by simp
qed

text \<open>
  Claim C7, as stated, for every initial content: it fails on empty content. After
  \<^verbatim>\<open>loadFromString("")\<close>, \<^verbatim>\<open>insert(0,"A")\<close> and \<^verbatim>\<open>insert(5,"B")\<close>, the offset 5 is
  clamped to the length 1, which is the end of the first insertion, and the two
  insertions are merged: one patch is flushed, not more than one.
\<close>
theorem far_insert_not_coalesced_counterexample:
  "pendingPatches (loadFromString GapBuffer_default []) = []
   \<and> ''A'' \<noteq> [] \<and> ''B'' \<noteq> [] \<and> length ''A'' < 5
   \<and> \<not> 1 < length (fst (flushPatches
            (insert_gb (insert_gb (loadFromString GapBuffer_default []) 0 ''A'' 10) 5 ''B'' 20)))"
proof -
  let ?g = "loadFromString GapBuffer_default []"
  let ?g1 = "insert_gb ?g 0 ''A'' 10"
  have h: "gb_inv ?g" by (rule loadFromString_inv)
  have l1: "length_gb ?g1 = 1"
    using insert_gb_length[OF h, of 0 "''A''" 10] by (simp add: loadFromString_length)
  have p1: "pendingPatches ?g1 = [mkPatch 0 0 ''A'' 10]"
    by (simp add: insert_gb_patches loadFromString_patches recordInto_fresh)
  have "pendingPatches (insert_gb ?g1 5 ''B'' 20)
        = [\<lparr>start = 0, removedLength = 0, insertedText = ''AB'', timestamp = 20\<rparr>]"
    by (simp add: insert_gb_patches p1 l1 recordInto_def mkPatch_def)
  then show ?thesis by (simp add: flushPatches_def loadFromString_patches)
qed

text \<open>
  Claim C7, amended. On a buffer that satisfies the invariant, with no pending patch,
  for nonempty texts \<open>t1\<close> and \<open>t2\<close> and every offset \<open>k\<close> beyond the length of \<open>t1\<close>:
  when the initial content is not empty, \<^verbatim>\<open>insert(0, t1)\<close> then \<^verbatim>\<open>insert(k, t2)\<close>
  gives more than one flushed patch; when the initial content is empty, \<open>k\<close> is clamped
  to the end of the first insertion and exactly one patch, with text \<open>t1 @ t2\<close>, is
  flushed.
\<close>
theorem far_insert_not_coalesced:
  assumes "gb_inv g" and "pendingPatches g = []"
    and "t1 \<noteq> []" and "t2 \<noteq> []" and "length t1 < k"
  shows "(0 < length_gb g \<longrightarrow>
            1 < length (fst (flushPatches (insert_gb (insert_gb g 0 t1 n1) k t2 n2))))
         \<and> (length_gb g = 0 \<longrightarrow>
            fst (flushPatches (insert_gb (insert_gb g 0 t1 n1) k t2 n2))
              = [\<lparr>start = 0, removedLength = 0, insertedText = t1 @ t2, timestamp = n2\<rparr>])"
proof -
  let ?g1 = "insert_gb g 0 t1 n1"
  have l1: "length_gb ?g1 = length_gb g + length t1" by (rule insert_gb_length[OF assms(1)])
  have p1: "pendingPatches ?g1 = [mkPatch 0 0 t1 n1]"
    by (simp add: insert_gb_patches assms(2,3) recordInto_fresh)
  have p2: "pendingPatches (insert_gb ?g1 k t2 n2)
            = recordInto [mkPatch 0 0 t1 n1] (min k (length_gb g + length t1)) 0 t2 n2"
    by (simp add: insert_gb_patches assms(4) p1 l1)
  show ?thesis
    using assms(5) by (auto simp: flushPatches_def p2 recordInto_def mkPatch_def min_def)
qed

theorem far_insert_not_coalesced_witness:
  "gb_inv (loadFromString GapBuffer_default ''Hello'')
   \<and> pendingPatches (loadFromString GapBuffer_default ''Hello'') = []
   \<and> 0 < length_gb (loadFromString GapBuffer_default ''Hello'')
   \<and> ''A'' \<noteq> [] \<and> ''B'' \<noteq> [] \<and> length ''A'' < 10
   \<and> 1 < length (fst (flushPatches
        (insert_gb (insert_gb (loadFromString GapBuffer_default ''Hello'') 0 ''A'' 10) 10 ''B'' 20)))
   \<and> gb_inv (GapBuffer_cap 4) \<and> pendingPatches (GapBuffer_cap 4) = []
   \<and> length_gb (GapBuffer_cap 4) = 0
   \<and> fst (flushPatches (insert_gb (insert_gb (GapBuffer_cap 4) 0 ''A'' 10) 10 ''B'' 20))
       = [\<lparr>start = 0, removedLength = 0, insertedText = ''AB'', timestamp = 20\<rparr>]"
proof -
  let ?g = "loadFromString GapBuffer_default ''Hello''"
  let ?e = "GapBuffer_cap 4"
  have h: "gb_inv ?g" by (rule loadFromString_inv)
  have l: "0 < length_gb ?g" by (simp add: loadFromString_length)
  have p: "pendingPatches ?g = []" by (rule loadFromString_patches)
  have a: "''A'' \<noteq> []" "''B'' \<noteq> []" "length ''A'' < 10" by simp_all
  have h': "gb_inv ?e" by (simp add: GapBuffer_cap_def gb_inv_def)
  have l': "length_gb ?e = 0" by (simp add: GapBuffer_cap_def length_gb_def)
  have p': "pendingPatches ?e = []" by (simp add: GapBuffer_cap_def)
  show ?thesis
    using h l p h' l' p'
      far_insert_not_coalesced[OF h p a, where ?n1.0 = 10 and ?n2.0 = 20]
      far_insert_not_coalesced[OF h' p' a, where ?n1.0 = 10 and ?n2.0 = 20]
    by simp
qed

subsection \<open>Line mapping and the invariant\<close>

lemma count_nl_append: "count_nl (xs @ ys) = count_nl xs + count_nl ys"
  by (simp add: count_nl_def)

lemma countNewlines_eq:
  "i \<le> stop \<Longrightarrow> stop \<le> length buf \<Longrightarrow>
   countNewlines buf i stop acc = acc + count_nl (take (stop - i) (drop i buf))"
proof (induction buf i stop acc rule: countNewlines.induct)
  case (1 buf i stop line)
  show ?case
  proof (cases "i < stop")
    case True
    then have il: "i < length buf" using "1.prems" by simp
    have d: "drop i buf = buf ! i # drop (Suc i) buf"
      by (rule Cons_nth_drop_Suc[OF il, symmetric])
    have s: "stop - i = Suc (stop - Suc i)" using True by simp
    have "countNewlines buf i stop line
          = countNewlines buf (Suc i) stop (if buf ! i = newline then Suc line else line)"
      using True by (subst countNewlines.simps) simp
    also have "\<dots> = (if buf ! i = newline then Suc line else line)
                      + count_nl (take (stop - Suc i) (drop (Suc i) buf))"
      using "1.IH"[OF True] True "1.prems" by simp
    also have "\<dots> = line + count_nl (take (stop - i) (drop i buf))"
      unfolding s d by (simp add: count_nl_def)
    finally show ?thesis .
  next
    case False
    then show ?thesis by (subst countNewlines.simps) (simp add: count_nl_def)
  qed
qed

lemma scanText_done: "\<not> cur < line \<Longrightarrow> scanText xs line cur off = (cur, off)"
  by (cases xs) simp_all

lemma scanText_append:
  "scanText (xs @ ys) line cur off
   = (case scanText xs line cur off of (c, o') \<Rightarrow> scanText ys line c o')"
proof (induction xs arbitrary: cur off)
  case Nil
  show ?case by simp
next
  case (Cons x xs)
  show ?case
  proof (cases "cur < line")
    case True
    then show ?thesis using Cons.IH by simp
  next
    case False
    then show ?thesis by (simp add: scanText_done)
  qed
qed

lemma scanLines_eq:
  "i \<le> stop \<Longrightarrow> stop \<le> length buf \<Longrightarrow>
   scanLines buf i stop line cur off = scanText (take (stop - i) (drop i buf)) line cur off"
proof (induction buf i stop line cur off rule: scanLines.induct)
  case (1 buf i stop line cur off)
  show ?case
  proof (cases "i < stop")
    case True
    then have il: "i < length buf" using "1.prems" by simp
    have d: "drop i buf = buf ! i # drop (Suc i) buf"
      by (rule Cons_nth_drop_Suc[OF il, symmetric])
    have s: "stop - i = Suc (stop - Suc i)" using True by simp
    show ?thesis
    proof (cases "cur < line")
      case c: True
      have "scanLines buf i stop line cur off
            = scanLines buf (Suc i) stop line
                (if buf ! i = newline then Suc cur else cur) (Suc off)"
        using True c by (subst scanLines.simps) simp
      also have "\<dots> = scanText (take (stop - Suc i) (drop (Suc i) buf)) line
                          (if buf ! i = newline then Suc cur else cur) (Suc off)"
        using "1.IH" True c "1.prems" by simp
      also have "\<dots> = scanText (take (stop - i) (drop i buf)) line cur off"
        unfolding s d using c by simp
      finally show ?thesis .
    next
      case False
      then show ?thesis by (subst scanLines.simps) (simp add: scanText_done)
    qed
  next
    case False
    then show ?thesis using "1.prems" by (subst scanLines.simps) simp
  qed
qed

lemma lineFromOffset_layout:
  assumes "layout g A G B"
  shows "lineFromOffset g off = count_nl (take (min off (length A + length B)) (A @ B))"
proof -
  define c where "c = min off (length A + length B)"
  have buf: "buffer g = A @ G @ B" and gs: "gapStart g = length A"
    and ge: "gapEnd g = length A + length G"
    using assms by (simp_all add: layout_def)
  have len: "length_gb g = length A + length B" by (rule layout_length[OF assms])
  have c: "c \<le> length A + length B" by (simp add: c_def)
  have first: "countNewlines (buffer g) 0 (min c (length A)) 0 = count_nl (take c A)"
    by (subst countNewlines_eq) (simp_all add: buf min_def)
  have lfo: "lineFromOffset g off
             = (if c > length A
                then countNewlines (buffer g) (gapEnd g) (gapEnd g + (c - gapStart g))
                       (countNewlines (buffer g) 0 (min c (length A)) 0)
                else countNewlines (buffer g) 0 (min c (length A)) 0)"
    by (simp add: lineFromOffset_def Let_def len gs c_def)
  have split: "count_nl (take c (A @ B)) = count_nl (take c A) + count_nl (take (c - length A) B)"
    by (simp add: count_nl_append)
  show ?thesis
  proof (cases "c > length A")
    case True
    have "countNewlines (buffer g) (gapEnd g) (gapEnd g + (c - gapStart g)) (count_nl (take c A))
          = count_nl (take c A) + count_nl (take (c - length A) B)"
      using c True by (subst countNewlines_eq) (simp_all add: buf gs ge)
    then show ?thesis
      unfolding lfo first c_def[symmetric] split using True by simp
  next
    case False
    then show ?thesis
      unfolding lfo first c_def[symmetric] split by (simp add: count_nl_def)
  qed
qed

lemma lineFromOffset_eq:
  "gb_inv g \<Longrightarrow> lineFromOffset g off = count_nl (take (min off (length_gb g)) (getText g))"
  by (erule inv_layoutE) (simp add: lineFromOffset_layout layout_getText layout_length)

lemma lineCount_layout:
  assumes "layout g A G B"
  shows "lineCount g = (if A @ B = [] then 0 else 1 + count_nl (A @ B))"
proof -
  have buf: "buffer g = A @ G @ B" and gs: "gapStart g = length A"
    and ge: "gapEnd g = length A + length G"
    using assms by (simp_all add: layout_def)
  have len: "length_gb g = length A + length B" by (rule layout_length[OF assms])
  have first: "countNewlines (buffer g) 0 (gapStart g) 1 = 1 + count_nl A"
    by (subst countNewlines_eq) (simp_all add: buf gs)
  have second: "countNewlines (buffer g) (gapEnd g) (length (buffer g)) (1 + count_nl A)
                = 1 + count_nl A + count_nl B"
    by (subst countNewlines_eq) (simp_all add: buf ge)
  show ?thesis
    by (simp add: lineCount_def empty_gb_def len Let_def first second count_nl_append
          del: One_nat_def)
qed

lemma lineCount_eq:
  "gb_inv g \<Longrightarrow> lineCount g = (if getText g = [] then 0 else 1 + count_nl (getText g))"
  by (erule inv_layoutE) (simp add: lineCount_layout layout_getText)

lemma offsetFromLine_layout:
  assumes "layout g A G B"
  shows "offsetFromLine g line col
         = (if line = 0 \<and> col = 0 then 0
            else min (snd (scanText (A @ B) line 0 0) + col) (length A + length B))"
proof -
  have buf: "buffer g = A @ G @ B" and gs: "gapStart g = length A"
    and ge: "gapEnd g = length A + length G"
    using assms by (simp_all add: layout_def)
  have len: "length_gb g = length A + length B" by (rule layout_length[OF assms])
  have first: "scanLines (buffer g) 0 (gapStart g) line 0 0 = scanText A line 0 0"
    by (subst scanLines_eq) (simp_all add: buf gs)
  have second: "scanLines (buffer g) (gapEnd g) (length (buffer g)) line c o'
                = scanText B line c o'" for c o'
    by (subst scanLines_eq) (simp_all add: buf ge)
  obtain c1 o1 where s1: "scanText A line 0 0 = (c1, o1)" by (cases "scanText A line 0 0")
  have "scanText (A @ B) line 0 0 = scanText B line c1 o1"
    by (simp add: scanText_append s1)
  moreover have "\<not> c1 < line \<Longrightarrow> scanText B line c1 o1 = (c1, o1)"
    by (rule scanText_done)
  ultimately show ?thesis
    by (cases "scanText B line c1 o1")
       (auto simp add: offsetFromLine_def Let_def len first second s1)
qed

lemma offsetFromLine_eq:
  "gb_inv g \<Longrightarrow> offsetFromLine g line col
     = (if line = 0 \<and> col = 0 then 0
        else min (snd (scanText (getText g) line 0 0) + col) (length_gb g))"
  by (erule inv_layoutE) (simp add: offsetFromLine_layout layout_getText layout_length)


lemma clear_inv: "gb_inv (clear g)"
  by (simp add: clear_def gb_inv_def)

lemma GapBuffer_cap_inv: "gb_inv (GapBuffer_cap n)"
  by (simp add: GapBuffer_cap_def gb_inv_def)

lemma moveGapTo_inv:
  assumes "gb_inv g" and "p \<le> length_gb g"
  shows "gb_inv (moveGapTo g p)"
proof -
  from assms(1) obtain A G B where l: "layout g A G B" by (rule inv_layoutE)
  from assms(2) have "p \<le> length A + length B" by (simp add: layout_length[OF l])
  from moveGapTo_layout[OF l this] show ?thesis by (blast intro: layout_inv)
qed

lemma grow_inv:
  assumes "gb_inv g" and "length (buffer g) \<le> n"
  shows "gb_inv (grow g n)"
proof -
  from assms(1) obtain A G B where l: "layout g A G B" by (rule inv_layoutE)
  from assms(2) l have "length A + length G + length B \<le> n" by (simp add: layout_def)
  from grow_layout[OF l this] show ?thesis by (blast intro: layout_inv)
qed

lemma ensureGapCapacity_inv:
  assumes "gb_inv g"
  shows "gb_inv (ensureGapCapacity g r)"
proof -
  from assms obtain A G B where l: "layout g A G B" by (rule inv_layoutE)
  from ensureGapCapacity_layout[OF l] show ?thesis by (blast intro: layout_inv)
qed

lemma flushPatches_inv: "gb_inv g \<Longrightarrow> gb_inv (snd (flushPatches g))"
  by (simp add: flushPatches_def gb_inv_def)

lemma copy_gb_inv: "gb_inv g \<Longrightarrow> gb_inv (copy_gb g)"
  by (simp add: copy_gb_def gb_inv_def)

lemma move_gb_target_inv: "gb_inv g \<Longrightarrow> gb_inv (fst (move_gb g))"
  by (simp add: move_gb_def gb_inv_def)

lemma move_gb_source_inv: "gb_inv (snd (move_gb g))"
  by (simp add: move_gb_def gb_inv_def)

lemma reachable_inv: "reachable g \<Longrightarrow> gb_inv g"
  by (induction rule: reachable.induct)
     (simp_all add: GapBuffer_cap_inv loadFromString_inv clear_inv insert_gb_inv erase_inv
        flushPatches_inv copy_gb_inv move_gb_target_inv move_gb_source_inv)

text \<open>
  Claim C9. The invariant \<open>gapStart \<le> gapEnd \<le> buffer.size()\<close> holds after construction
  with any capacity, after \<^verbatim>\<open>loadFromString\<close> and \<^verbatim>\<open>clear\<close> and for the source of a
  move whatever the state before, and it is kept by \<^verbatim>\<open>insert\<close>, \<^verbatim>\<open>erase\<close>,
  \<^verbatim>\<open>flushPatches\<close>, copying and moving, and inside them by \<^verbatim>\<open>ensureGapCapacity\<close>,
  \<^verbatim>\<open>moveGapTo\<close> (to a position within the text) and \<^verbatim>\<open>grow\<close> (to a capacity not
  below the current one); so it holds of every reachable buffer. \<^verbatim>\<open>getText\<close>,
  \<^verbatim>\<open>length\<close> and the line queries are \<^verbatim>\<open>const\<close>: here they are functions that return
  a value and no buffer, so they change nothing.
\<close>
theorem gap_invariant_preserved:
  "gb_inv (GapBuffer_cap n) \<and> gb_inv GapBuffer_default
   \<and> gb_inv (loadFromString g0 s) \<and> gb_inv (clear g0) \<and> gb_inv (snd (move_gb g0))
   \<and> (gb_inv g \<longrightarrow>
         gb_inv (insert_gb g off t now) \<and> gb_inv (erase g off len now)
         \<and> gb_inv (snd (flushPatches g)) \<and> gb_inv (copy_gb g) \<and> gb_inv (fst (move_gb g))
         \<and> gb_inv (ensureGapCapacity g r)
         \<and> (p \<le> length_gb g \<longrightarrow> gb_inv (moveGapTo g p))
         \<and> (length (buffer g) \<le> m \<longrightarrow> gb_inv (grow g m)))
   \<and> (reachable g \<longrightarrow> gb_inv g)"
  using GapBuffer_cap_inv loadFromString_inv clear_inv insert_gb_inv erase_inv
    ensureGapCapacity_inv moveGapTo_inv grow_inv reachable_inv
    flushPatches_inv copy_gb_inv move_gb_target_inv move_gb_source_inv
  by (simp add: GapBuffer_default_def)

theorem gap_invariant_preserved_witness:
  "gb_inv (GapBuffer_cap 4)
   \<and> gb_inv (insert_gb (GapBuffer_cap 4) 7 ''abcdef'' 10)
   \<and> gapStart (insert_gb (GapBuffer_cap 4) 7 ''abcdef'' 10) = 6
   \<and> gapEnd (insert_gb (GapBuffer_cap 4) 7 ''abcdef'' 10) = 262
   \<and> length (buffer (insert_gb (GapBuffer_cap 4) 7 ''abcdef'' 10)) = 262
   \<and> gb_inv (erase (insert_gb (GapBuffer_cap 4) 7 ''abcdef'' 10) 2 9 20)
   \<and> gb_inv (moveGapTo (insert_gb (GapBuffer_cap 4) 7 ''abcdef'' 10) 3)
   \<and> gb_inv (grow (insert_gb (GapBuffer_cap 4) 7 ''abcdef'' 10) 300)
   \<and> gb_inv (snd (move_gb (insert_gb (GapBuffer_cap 4) 7 ''abcdef'' 10)))
   \<and> reachable (erase (insert_gb (GapBuffer_cap 4) 7 ''abcdef'' 10) 2 9 20)"
proof -
  let ?g0 = "GapBuffer_cap 4"
  let ?g = "insert_gb ?g0 7 ''abcdef'' 10"
  have h0: "gb_inv ?g0" using gap_invariant_preserved[where n = 4] by simp
  have h: "gb_inv ?g"
    using h0 gap_invariant_preserved[where g = ?g0 and off = 7 and t = "''abcdef''" and now = 10]
    by simp
  have l: "3 \<le> length_gb ?g" by code_simp
  have gs: "gapStart ?g = 6" by code_simp
  have ge: "gapEnd ?g = 262" by code_simp
  have b: "length (buffer ?g) = 262" by code_simp
  have r: "reachable (erase ?g 2 9 20)"
    by (intro reachable.erased reachable.inserted reachable.constructed)
  have "gb_inv (erase ?g 2 9 20)"
    using r gap_invariant_preserved[where g = "erase ?g 2 9 20" and ?g0.0 = ?g0 and p = 0
        and m = 0 and n = 4 and s = "[]" and off = 2 and len = 9 and now = 20 and t = "[]"
        and r = 0]
    by simp
  then show ?thesis
    using h0 h l gs ge b r
      gap_invariant_preserved[where g = ?g and ?g0.0 = ?g and p = 3 and m = 300
        and n = 4 and s = "[]" and off = 2 and len = 9 and now = 20 and t = "[]" and r = 0]
    by simp
qed

text \<open>
  Claim C8. For a buffer loaded with \<^verbatim>\<open>"Line 1\nLine 2\nLine 3"\<close>, whatever it held
  before, \<^verbatim>\<open>lineCount()\<close> is 3 and for every line below it
  \<^verbatim>\<open>lineFromOffset(offsetFromLine(line, 0))\<close> is that line. On every buffer that
  satisfies the invariant, \<^verbatim>\<open>lineFromOffset(offset)\<close> is the number of line feeds among
  the first \<open>min offset length()\<close> bytes of the text, that is strictly before the clamped
  offset.
\<close>
theorem line_mapping_round_trip:
  "(\<forall>line < lineCount (loadFromString g0 ''Line 1\<newline>Line 2\<newline>Line 3'').
       lineFromOffset (loadFromString g0 ''Line 1\<newline>Line 2\<newline>Line 3'')
         (offsetFromLine (loadFromString g0 ''Line 1\<newline>Line 2\<newline>Line 3'') line 0)
       = line)
   \<and> lineCount (loadFromString g0 ''Line 1\<newline>Line 2\<newline>Line 3'') = 3
   \<and> (gb_inv g \<longrightarrow>
         lineFromOffset g off = count_nl (take (min off (length_gb g)) (getText g)))"
proof -
  let ?S = "''Line 1\<newline>Line 2\<newline>Line 3''"
  let ?h = "loadFromString g0 ?S"
  have i: "gb_inv ?h" by (rule loadFromString_inv)
  have t: "getText ?h = ?S" by (rule loadFromString_getText)
  have l: "length_gb ?h = 20" by (simp add: loadFromString_length)
  have lc: "lineCount ?h = 3"
    unfolding lineCount_eq[OF i] t by (simp add: count_nl_def newline_def)
  have o0: "offsetFromLine ?h 0 0 = 0" by (simp add: offsetFromLine_def)
  have o1: "offsetFromLine ?h 1 0 = 7"
    unfolding offsetFromLine_eq[OF i] t l by (simp add: newline_def)
  have o2: "offsetFromLine ?h 2 0 = 14"
    unfolding offsetFromLine_eq[OF i] t l by (simp add: newline_def)
  have f0: "lineFromOffset ?h 0 = 0"
    unfolding lineFromOffset_eq[OF i] t l by (simp add: count_nl_def newline_def)
  have f1: "lineFromOffset ?h 7 = 1"
    unfolding lineFromOffset_eq[OF i] t l by (simp add: count_nl_def newline_def)
  have f2: "lineFromOffset ?h 14 = 2"
    unfolding lineFromOffset_eq[OF i] t l by (simp add: count_nl_def newline_def)
  have rt: "lineFromOffset ?h (offsetFromLine ?h line 0) = line" if "line < 3" for line
  proof -
    from that have "line = 0 \<or> line = 1 \<or> line = 2" by arith
    then show ?thesis
      using o0 o1 o2 f0 f1 f2 by (elim disjE) (simp_all only:)
  qed
  show ?thesis
    unfolding lc using rt lineFromOffset_eq[of g off] by blast
qed

theorem line_mapping_round_trip_witness:
  "2 < lineCount (loadFromString GapBuffer_default ''Line 1\<newline>Line 2\<newline>Line 3'')
   \<and> offsetFromLine (loadFromString GapBuffer_default ''Line 1\<newline>Line 2\<newline>Line 3'') 2 0
       = 14
   \<and> lineFromOffset (loadFromString GapBuffer_default ''Line 1\<newline>Line 2\<newline>Line 3'')
        (offsetFromLine (loadFromString GapBuffer_default ''Line 1\<newline>Line 2\<newline>Line 3'')
           2 0) = 2
   \<and> gb_inv (loadFromString GapBuffer_default ''Line 1\<newline>Line 2\<newline>Line 3'')
   \<and> lineFromOffset (loadFromString GapBuffer_default ''Line 1\<newline>Line 2\<newline>Line 3'') 99
       = 2"
proof -
  let ?S = "''Line 1\<newline>Line 2\<newline>Line 3''"
  let ?h = "loadFromString GapBuffer_default ?S"
  have i: "gb_inv ?h" by (rule loadFromString_inv)
  have t: "getText ?h = ?S" by (rule loadFromString_getText)
  have l: "length_gb ?h = 20" by (simp add: loadFromString_length)
  have o2: "offsetFromLine ?h 2 0 = 14"
    unfolding offsetFromLine_eq[OF i] t l by (simp add: newline_def)
  have c: "count_nl ?S = 2" by (simp add: count_nl_def newline_def)
  note th = line_mapping_round_trip[where ?g0.0 = GapBuffer_default and g = ?h and off = 99]
  from th have lc: "lineCount ?h = 3" by simp
  from th have "\<forall>line < lineCount ?h. lineFromOffset ?h (offsetFromLine ?h line 0) = line"
    by (rule conjunct1)
  from this[rule_format, of 2] lc
  have rt: "lineFromOffset ?h (offsetFromLine ?h 2 0) = 2" by simp
  show ?thesis
    using i o2 lc rt th by (simp add: t l c)
qed

end
